theory Spec2Isabelle
  imports Complex_Main "HOL-Library.Stream"
begin

section \<open>Atoms, values and the random engine\<close>

text \<open>
  The generator works on AtomSpace handles. An atom is a node (type and name) or a link
  (type and outgoing sequence); two handles are equal when their atoms are.
\<close>

datatype atom_type =
    CONCEPT_NODE | PREDICATE_NODE | CONNECTOR_DIR_NODE
  | CONNECTOR | CONNECTOR_SEQ | SECTION
  | MEMBER_LINK | SET_LINK | LIST_LINK | UNORDERED_LINK | ORDERED_LINK

datatype atom = Node atom_type string | Link atom_type "atom list"

text \<open>
  What can go wrong in a call: an exception of the AtomSpace (\<open>getOutgoingAtom\<close> on a node
  or past the arity), or undefined behaviour of the C++ library (indexing a vector out of
  range, dereferencing an end iterator, \<open>top()\<close> of an empty stack).
\<close>

datatype error = RuntimeException | UndefinedBehaviour

fun get_type :: "atom \<Rightarrow> atom_type" where
  "get_type (Node t n) = t"
| "get_type (Link t out) = t"

fun getOutgoingSet :: "atom \<Rightarrow> atom list" where
  "getOutgoingSet (Node t n) = []"
| "getOutgoingSet (Link t out) = out"

fun getOutgoingAtom :: "atom \<Rightarrow> nat \<Rightarrow> error + atom" where
  "getOutgoingAtom (Node t n) pos = Inl RuntimeException"
| "getOutgoingAtom (Link t out) pos =
     (if pos < length out then Inr (out ! pos) else Inl RuntimeException)"

text \<open>Values hang off atoms under key atoms; \<open>FloatValueCast\<close> is null on any other value.\<close>

datatype proto_value = FloatValue "real list" | OtherValue

type_synonym valuation = "atom \<Rightarrow> atom \<Rightarrow> proto_value option"

text \<open>
  \<open>static std::mt19937 rangen(seed())\<close>: the engine is a global whose state is the
  sequence of 32-bit outputs still to come. It is initialised once from
  \<open>std::random_device\<close>; no function of the repository takes a seed.
\<close>

type_synonym rangen = "nat stream"

text \<open>
  \<open>std::discrete_distribution<size_t>\<close> is kept as the weight vector it was built from,
  and a draw \<open>dist(rangen)\<close> follows the library (libstdc++), in exact arithmetic, the
  rounding of doubles left out.

  With fewer than two weights the draw is index 0 and the engine is not touched.
  Otherwise the weights are divided by their sum and summed up into the cumulative
  probabilities, the last of which is set to 1; the engine yields a canonical variate in
  the interval from 0 to 1 (1 excluded) out of two outputs; and the draw is what
  \<open>std::lower_bound\<close> finds for the variate in the cumulative probabilities, by
  bisection: on an ordered sequence the first entry that is not below the variate.
\<close>

type_synonym discrete_distribution = "real list"

definition canonical :: "rangen \<Rightarrow> real" where
  "canonical g =
     (real (shd g mod 2 ^ 32) + real (shd (stl g) mod 2 ^ 32) * 2 ^ 32) / 2 ^ 64"

fun partial_sum :: "real \<Rightarrow> real list \<Rightarrow> real list" where
  "partial_sum acc [] = []"
| "partial_sum acc (p # ps) = (acc + p) # partial_sum (acc + p) ps"

definition cumulative :: "real list \<Rightarrow> real list" where
  "cumulative ws = butlast (partial_sum 0 (map (\<lambda>w. w / sum_list ws) ws)) @ [1]"

text \<open>
  Weights that sum to zero are outside the library's contract. The division then gives
  an infinity for a weight other than zero and no number for a zero weight; a cumulative
  probability is below the variate only when it is the negative infinity, that is, when
  all weights up to it are negative.
\<close>

fun negative_so_far :: "bool \<Rightarrow> real list \<Rightarrow> bool list" where
  "negative_so_far neg [] = []"
| "negative_so_far neg (w # ws) = (neg \<and> w < 0) # negative_so_far (neg \<and> w < 0) ws"

text \<open>The outcomes of the comparisons \<open>cp[k] < p\<close> that the bisection may make.\<close>

definition below :: "real list \<Rightarrow> real \<Rightarrow> bool list" where
  "below ws p =
     (if sum_list ws = 0 then butlast (negative_so_far True ws) @ [False]
      else map (\<lambda>c. c < p) (cumulative ws))"

fun lower_bound :: "bool list \<Rightarrow> nat \<Rightarrow> nat \<Rightarrow> nat" where
  "lower_bound lt first len =
     (if len = 0 then first
      else
        (let half = len div 2; middle = first + half
         in if lt ! middle then lower_bound lt (middle + 1) (len - half - 1)
            else lower_bound lt first half))"

declare lower_bound.simps [simp del]

definition draw :: "discrete_distribution \<Rightarrow> rangen \<Rightarrow> nat \<times> rangen" where
  "draw distr g =
     (if length distr < 2 then (0, g)
      else (lower_bound (below distr (canonical g)) 0 (length distr), stl (stl g)))"

section \<open>Dictionary, parameters, frames and the callback's state\<close>

text \<open>
  The dictionary, the parameters and the frame are classes of their own, which the
  callback only consults. They are taken as data: what \<open>sections\<close> answers for a connector, the registered pole
  pairs, the two virtual methods of the parameters, and the open sections of a frame in
  the order in which the set is iterated.
\<close>

record dictionary =
  sections :: "atom \<Rightarrow> atom list"
  pole_pairs :: "(atom \<times> atom) list"

record frame =
  open_sections :: "atom list"

record parameters =
  max_solutions :: nat
  connect_existing :: "frame \<Rightarrow> bool"
  parms_step :: "frame \<Rightarrow> bool"

record open_selections =
  opensect :: "atom \<rightharpoonup> atom list"
  opendi :: "atom \<rightharpoonup> discrete_distribution"

record callback =
  dict :: dictionary
  parms :: parameters
  atom_values :: valuation
  weight_key :: atom
  distmap :: "atom \<rightharpoonup> discrete_distribution"
  opensel :: open_selections
  opensel_stack :: "open_selections list"
  num_solutions_found :: nat
  solutions :: "frame list"
  serial :: nat

definition empty_selections :: open_selections where
  "empty_selections = \<lparr>opensect = Map.empty, opendi = Map.empty\<rparr>"

text \<open>The constructor: nothing cached, nothing stacked, no solution found.\<close>

definition RandomCallback :: "valuation \<Rightarrow> dictionary \<Rightarrow> parameters \<Rightarrow> atom \<Rightarrow> callback" where
  "RandomCallback vals d p key =
     \<lparr>dict = d, parms = p, atom_values = vals, weight_key = key, distmap = Map.empty,
      opensel = empty_selections, opensel_stack = [], num_solutions_found = 0,
      solutions = [], serial = 0\<rparr>"

text \<open>\<open>std::map::emplace\<close> inserts only where the key is absent.\<close>

definition emplace :: "('k \<rightharpoonup> 'v) \<Rightarrow> 'k \<Rightarrow> 'v \<Rightarrow> ('k \<rightharpoonup> 'v)" where
  "emplace m k v = (case m k of None \<Rightarrow> m(k \<mapsto> v) | Some old \<Rightarrow> m)"

text \<open>
  Modelled from the spec: \<open>create_unique_section\<close> is inherited from the link style,
  whose code is missing. It instantiates a fresh section instance from the chosen template,
  one that carries its own identity: here the template's point renamed with a serial
  number, over the template's connector sequence.
\<close>

definition create_unique_section :: "nat \<Rightarrow> atom \<Rightarrow> error + atom" where
  "create_unique_section n sect =
     (case getOutgoingAtom sect 0 of
        Inl e \<Rightarrow> Inl e
      | Inr point \<Rightarrow>
          (case getOutgoingAtom sect 1 of
             Inl e \<Rightarrow> Inl e
           | Inr conseq \<Rightarrow>
               (case point of
                  Node t name \<Rightarrow>
                    Inr (Link SECTION [Node t (name @ ''@'' @ replicate n (CHR ''i'')), conseq])
                | Link t out \<Rightarrow> Inl RuntimeException)))"

section \<open>Selection from the lexis\<close>

text \<open>One entry of the pdf: the first float under the weight key, or 0.0 without one.\<close>

definition weight_entry :: "valuation \<Rightarrow> atom \<Rightarrow> atom \<Rightarrow> error + real" where
  "weight_entry vals key sect =
     (case vals sect key of
        Some (FloatValue fv) \<Rightarrow> (case fv of [] \<Rightarrow> Inl UndefinedBehaviour | w # ws \<Rightarrow> Inr w)
      | Some OtherValue \<Rightarrow> Inr 0
      | None \<Rightarrow> Inr 0)"

fun make_pdf :: "valuation \<Rightarrow> atom \<Rightarrow> atom list \<Rightarrow> real list \<Rightarrow> error + real list" where
  "make_pdf vals key [] pdf = Inr pdf"
| "make_pdf vals key (sect # to_sects) pdf =
     (case weight_entry vals key sect of
        Inl e \<Rightarrow> Inl e
      | Inr w \<Rightarrow> make_pdf vals key to_sects (pdf @ [w]))"

text \<open>\<open>create_unique_section(to_sects[dist(rangen)])\<close>, the common tail of both branches.\<close>

definition pick_unique ::
  "callback \<Rightarrow> atom list \<Rightarrow> discrete_distribution \<Rightarrow> rangen
     \<Rightarrow> error + (atom option \<times> callback \<times> rangen)" where
  "pick_unique cb to_sects distr g =
     (case draw distr g of
        (i, g') \<Rightarrow>
          if i < length to_sects then
            (case create_unique_section (serial cb) (to_sects ! i) of
               Inl e \<Rightarrow> Inl e
             | Inr inst \<Rightarrow> Inr (Some inst, cb\<lparr>serial := Suc (serial cb)\<rparr>, g'))
          else Inl UndefinedBehaviour)"

definition select_from_lexis ::
  "callback \<Rightarrow> frame \<Rightarrow> atom \<Rightarrow> nat \<Rightarrow> atom \<Rightarrow> rangen
     \<Rightarrow> error + (atom option \<times> callback \<times> rangen)" where
  "select_from_lexis cb frm fm_sect offset to_con g =
     (let to_sects = sections (dict cb) to_con in
      if length to_sects = 0 then Inr (None, cb, g)
      else
        (case distmap cb to_con of
           Some distr \<Rightarrow> pick_unique cb to_sects distr g
         | None \<Rightarrow>
             (case make_pdf (atom_values cb) (weight_key cb) to_sects [] of
                Inl e \<Rightarrow> Inl e
              | Inr pdf \<Rightarrow>
                  pick_unique (cb\<lparr>distmap := emplace (distmap cb) to_con pdf\<rparr>) to_sects pdf g)))"

section \<open>Selection from the open sections\<close>

fun push_matching :: "atom list \<Rightarrow> atom \<Rightarrow> atom \<Rightarrow> atom list \<Rightarrow> atom list" where
  "push_matching [] to_con open_sect to_sects = to_sects"
| "push_matching (con # cons) to_con open_sect to_sects =
     push_matching cons to_con open_sect
       (if con = to_con then to_sects @ [open_sect] else to_sects)"

fun connectable :: "atom list \<Rightarrow> atom \<Rightarrow> atom list \<Rightarrow> error + atom list" where
  "connectable [] to_con to_sects = Inr to_sects"
| "connectable (open_sect # rest) to_con to_sects =
     (case getOutgoingAtom open_sect 1 of
        Inl e \<Rightarrow> Inl e
      | Inr conseq \<Rightarrow>
          connectable rest to_con
            (push_matching (getOutgoingSet conseq) to_con open_sect to_sects))"

definition disallow_self :: bool where
  "disallow_self = True"

fun only_self :: "atom list \<Rightarrow> atom \<Rightarrow> bool" where
  "only_self [] fm_sect = True"
| "only_self (sect # to_sects) fm_sect =
     (if sect \<noteq> fm_sect then False else only_self to_sects fm_sect)"

text \<open>
  The closing \<open>while (true)\<close>: draw, return the choice unless it is the requester. A run
  that never leaves the loop is \<open>None\<close>.
\<close>

partial_function (option) redraw ::
  "atom list \<Rightarrow> discrete_distribution \<Rightarrow> atom \<Rightarrow> rangen \<Rightarrow> (error + atom \<times> rangen) option" where
  "redraw to_sects distr fm_sect g =
     (case draw distr g of
        (i, g') \<Rightarrow>
          if i < length to_sects then
            (if to_sects ! i \<noteq> fm_sect then Some (Inr (to_sects ! i, g'))
             else redraw to_sects distr fm_sect g')
          else Some (Inl UndefinedBehaviour))"

definition set_opensect :: "callback \<Rightarrow> atom \<Rightarrow> atom list \<Rightarrow> callback" where
  "set_opensect cb to_con to_sects =
     cb\<lparr>opensel := (opensel cb)\<lparr>opensect := (opensect (opensel cb))(to_con \<mapsto> to_sects)\<rparr>\<rparr>"

definition emplace_opendi :: "callback \<Rightarrow> atom \<Rightarrow> discrete_distribution \<Rightarrow> callback" where
  "emplace_opendi cb to_con distr =
     cb\<lparr>opensel := (opensel cb)\<lparr>opendi := emplace (opendi (opensel cb)) to_con distr\<rparr>\<rparr>"

definition select_from_open ::
  "callback \<Rightarrow> frame \<Rightarrow> atom \<Rightarrow> nat \<Rightarrow> atom \<Rightarrow> rangen
     \<Rightarrow> (error + (atom option \<times> callback \<times> rangen)) option" where
  "select_from_open cb frm fm_sect offset to_con g =
     (let tosit = opensect (opensel cb) to_con in
      if tosit = Some [] then Some (Inr (None, cb, g))
      else
        (case opendi (opensel cb) to_con of
           Some distr \<Rightarrow>
             (case tosit of
                None \<Rightarrow> Some (Inl UndefinedBehaviour)
              | Some to_sects \<Rightarrow>
                  (case draw distr g of
                     (i, g') \<Rightarrow>
                       if i < length to_sects then Some (Inr (Some (to_sects ! i), cb, g'))
                       else Some (Inl UndefinedBehaviour)))
         | None \<Rightarrow>
             (case connectable (open_sections frm) to_con [] of
                Inl e \<Rightarrow> Some (Inl e)
              | Inr to_sects \<Rightarrow>
                  (let cb1 = set_opensect cb to_con to_sects in
                   if length to_sects = 0 then Some (Inr (None, cb1, g))
                   else if length to_sects = 1 then
                     (if disallow_self \<and> to_sects ! 0 \<noteq> fm_sect
                      then Some (Inr (Some (to_sects ! 0), cb1, g))
                      else Some (Inr (None, cb1, g)))
                   else if disallow_self \<and> only_self to_sects fm_sect then
                     Some (Inr (None, cb1, g))
                   else
                     (let distr = replicate (length to_sects) 1;
                          cb2 = emplace_opendi cb1 to_con distr
                      in if \<not> disallow_self then
                           (case draw distr g of
                              (i, g') \<Rightarrow>
                                if i < length to_sects
                                then Some (Inr (Some (to_sects ! i), cb2, g'))
                                else Some (Inl UndefinedBehaviour))
                         else
                           (case redraw to_sects distr fm_sect g of
                              None \<Rightarrow> None
                            | Some (Inl e) \<Rightarrow> Some (Inl e)
                            | Some (Inr (choice, g')) \<Rightarrow> Some (Inr (Some choice, cb2, g'))))))))"

section \<open>The callback's other methods\<close>

definition select ::
  "callback \<Rightarrow> frame \<Rightarrow> atom \<Rightarrow> nat \<Rightarrow> atom \<Rightarrow> rangen
     \<Rightarrow> (error + (atom option \<times> callback \<times> rangen)) option" where
  "select cb frm fm_sect offset to_con g =
     (if connect_existing (parms cb) frm then
        (case select_from_open cb frm fm_sect offset to_con g of
           None \<Rightarrow> None
         | Some (Inl e) \<Rightarrow> Some (Inl e)
         | Some (Inr (Some open_sect, cb', g')) \<Rightarrow> Some (Inr (Some open_sect, cb', g'))
         | Some (Inr (None, cb', g')) \<Rightarrow> Some (select_from_lexis cb' frm fm_sect offset to_con g'))
      else Some (select_from_lexis cb frm fm_sect offset to_con g))"

definition push_frame :: "frame \<Rightarrow> callback \<Rightarrow> callback" where
  "push_frame frm cb =
     cb\<lparr>opensel_stack := opensel cb # opensel_stack cb, opensel := empty_selections\<rparr>"

definition pop_frame :: "frame \<Rightarrow> callback \<Rightarrow> error + callback" where
  "pop_frame frm cb =
     (case opensel_stack cb of
        [] \<Rightarrow> Inl UndefinedBehaviour
      | saved # rest \<Rightarrow> Inr (cb\<lparr>opensel := saved, opensel_stack := rest\<rparr>))"

definition step :: "callback \<Rightarrow> frame \<Rightarrow> bool" where
  "step cb frm =
     (if max_solutions (parms cb) < num_solutions_found cb then False
      else parms_step (parms cb) frm)"

text \<open>
  Modelled from the spec: \<open>record_solution\<close> is inherited and its code is missing; the
  policy stores the finished network, here the frame, in order.
\<close>

definition record_solution :: "frame \<Rightarrow> callback \<Rightarrow> callback" where
  "record_solution frm cb = cb\<lparr>solutions := solutions cb @ [frm]\<rparr>"

definition solution :: "frame \<Rightarrow> callback \<Rightarrow> callback" where
  "solution frm cb = record_solution frm (cb\<lparr>num_solutions_found := Suc (num_solutions_found cb)\<rparr>)"

section \<open>Sequences of calls\<close>

text \<open>
  The driver's calls on the callback, run in order on the callback and the engine. A run
  is \<open>None\<close> when a call throws, runs into undefined behaviour or does not return.
\<close>

datatype call =
    Select frame atom nat atom
  | Push_frame frame
  | Pop_frame frame
  | Step frame
  | Solution frame

fun call1 :: "call \<Rightarrow> callback \<times> rangen \<Rightarrow> (callback \<times> rangen) option" where
  "call1 (Select frm fm_sect offset to_con) (cb, g) =
     (case select cb frm fm_sect offset to_con g of
        None \<Rightarrow> None
      | Some (Inl e) \<Rightarrow> None
      | Some (Inr (chosen, cb', g')) \<Rightarrow> Some (cb', g'))"
| "call1 (Push_frame frm) (cb, g) = Some (push_frame frm cb, g)"
| "call1 (Pop_frame frm) (cb, g) =
     (case pop_frame frm cb of Inl e \<Rightarrow> None | Inr cb' \<Rightarrow> Some (cb', g))"
| "call1 (Step frm) (cb, g) = Some (cb, g)"
| "call1 (Solution frm) (cb, g) = Some (solution frm cb, g)"

fun run :: "call list \<Rightarrow> callback \<times> rangen \<Rightarrow> (callback \<times> rangen) option" where
  "run [] s = Some s"
| "run (c # cs) s = (case call1 c s of None \<Rightarrow> None | Some s' \<Rightarrow> run cs s')"

text \<open>Strictly nested: every pop closes a push of the sequence, and none is left open.\<close>

fun nested :: "nat \<Rightarrow> call list \<Rightarrow> bool" where
  "nested d [] = (d = 0)"
| "nested d (Push_frame frm # cs) = nested (Suc d) cs"
| "nested d (Pop_frame frm # cs) = (0 < d \<and> nested (d - 1) cs)"
| "nested d (c # cs) = nested d cs"

section \<open>Registering the pole pairs\<close>

text \<open>
  The head of \<open>do_random_aggregate\<close>, up to the end of the loop over the pole set. The
  AtomSpace is the list of its atoms; the type hierarchy of the name server is the
  parameter \<open>isA\<close>.
\<close>

definition get_incoming_by_type :: "atom list \<Rightarrow> atom \<Rightarrow> atom_type \<Rightarrow> atom list" where
  "get_incoming_by_type space h t =
     filter (\<lambda>l. get_type l = t \<and> h \<in> set (getOutgoingSet l)) space"

text \<open>
  Modelled from the spec: the code of \<open>Dictionary::add_pole_pair\<close> is missing; it
  declares that a connector of the first type may join one of the second.
\<close>

definition add_pole_pair :: "atom \<Rightarrow> atom \<Rightarrow> dictionary \<Rightarrow> dictionary" where
  "add_pole_pair p0 p1 d = d\<lparr>pole_pairs := pole_pairs d @ [(p0, p1)]\<rparr>"

fun add_poles ::
  "(atom_type \<Rightarrow> atom_type \<Rightarrow> bool) \<Rightarrow> atom \<Rightarrow> atom list \<Rightarrow> dictionary \<Rightarrow> error + dictionary" where
  "add_poles isA poles [] d = Inr d"
| "add_poles isA poles (pole_pair # poleset) d =
     (case getOutgoingAtom pole_pair 1 of
        Inl e \<Rightarrow> Inl e
      | Inr member_of \<Rightarrow>
          if member_of \<noteq> poles then add_poles isA poles poleset d
          else
            (case getOutgoingAtom pole_pair 0 of
               Inl e \<Rightarrow> Inl e
             | Inr p0 \<Rightarrow>
                 (case getOutgoingAtom pole_pair 1 of
                    Inl e \<Rightarrow> Inl e
                  | Inr p1 \<Rightarrow>
                      (let d1 = add_pole_pair p0 p1 d in
                       if isA (get_type pole_pair) UNORDERED_LINK \<and> p0 \<noteq> p1
                       then add_poles isA poles poleset (add_pole_pair p1 p0 d1)
                       else add_poles isA poles poleset d1))))"

definition do_random_aggregate_poles ::
  "(atom_type \<Rightarrow> atom_type \<Rightarrow> bool) \<Rightarrow> atom list \<Rightarrow> atom \<Rightarrow> error + dictionary" where
  "do_random_aggregate_poles isA space poles =
     add_poles isA poles (get_incoming_by_type space poles MEMBER_LINK)
       \<lparr>sections = (\<lambda>con. []), pole_pairs = []\<rparr>"

section \<open>Invariant of the open selections\<close>

text \<open>
  Every connector with a chooser has a candidate list, of at least two sections and as
  long as the chooser's weight vector. It is to hold of the current selections and of
  every saved one.
\<close>

definition chooser_has_list :: "open_selections \<Rightarrow> bool" where
  "chooser_has_list sel =
     (\<forall>con distr. opendi sel con = Some distr \<longrightarrow>
        (\<exists>to_sects. opensect sel con = Some to_sects \<and> 2 \<le> length to_sects
           \<and> length distr = length to_sects))"

definition open_inv :: "callback \<Rightarrow> bool" where
  "open_inv cb =
     (chooser_has_list (opensel cb) \<and> (\<forall>sel \<in> set (opensel_stack cb). chooser_has_list sel))"

text \<open>A section in the shape \<open>create_unique_section\<close> expects: a point node and a second atom.\<close>

fun is_section :: "atom \<Rightarrow> bool" where
  "is_section (Link t (Node pt name # conseq # rest)) = True"
| "is_section a = False"

section \<open>A small social network\<close>

text \<open>
  The setting of the demo: persons with two friend connectors, any connector joining
  any; the pole set holds one symmetric pair.
\<close>

definition friend_con :: atom where
  "friend_con = Link CONNECTOR [Node CONCEPT_NODE ''friend'', Node CONNECTOR_DIR_NODE ''*'']"

definition person :: "string \<Rightarrow> atom" where
  "person name =
     Link SECTION [Node CONCEPT_NODE name, Link CONNECTOR_SEQ [friend_con, friend_con]]"

definition node_weight :: atom where
  "node_weight = Node PREDICATE_NODE ''weights''"

definition no_lexis :: dictionary where
  "no_lexis = \<lparr>sections = (\<lambda>con. []), pole_pairs = []\<rparr>"

definition two_lexis :: dictionary where
  "two_lexis =
     \<lparr>sections = (\<lambda>con. if con = friend_con then [person ''P'', person ''Q''] else []),
      pole_pairs = []\<rparr>"

definition weights_1_3 :: valuation where
  "weights_1_3 a k =
     (if k = node_weight \<and> a = person ''P'' then Some (FloatValue [1])
      else if k = node_weight \<and> a = person ''Q'' then Some (FloatValue [3])
      else None)"

definition no_weights :: valuation where
  "no_weights a k = None"

definition reuse_parms :: parameters where
  "reuse_parms =
     \<lparr>max_solutions = 1, connect_existing = (\<lambda>frm. True), parms_step = (\<lambda>frm. True)\<rparr>"

definition two_open :: frame where
  "two_open = \<lparr>open_sections = [person ''A'', person ''B'']\<rparr>"

definition one_open :: frame where
  "one_open = \<lparr>open_sections = [person ''A'']\<rparr>"

definition fresh_cb :: callback where
  "fresh_cb = RandomCallback no_weights no_lexis reuse_parms node_weight"

definition cached_cb :: callback where
  "cached_cb =
     emplace_opendi
       (set_opensect fresh_cb friend_con [person ''A'', person ''A'', person ''B'', person ''B''])
       friend_con [1, 1, 1, 1]"

definition deep_cb :: callback where
  "deep_cb =
     emplace_opendi
       (set_opensect (push_frame two_open fresh_cb) friend_con
          [person ''A'', person ''A'', person ''B'', person ''B''])
       friend_con [1, 1, 1, 1]"

definition any_to_any :: atom where
  "any_to_any = Node CONCEPT_NODE ''any to any''"

definition star :: atom where
  "star = Node CONNECTOR_DIR_NODE ''*''"

definition demo_space :: "atom list" where
  "demo_space = [Link MEMBER_LINK [Link SET_LINK [star, star], any_to_any]]"

definition lexis_cb :: callback where
  "lexis_cb = RandomCallback weights_1_3 two_lexis reuse_parms node_weight"

definition unweighted_cb :: callback where
  "unweighted_cb = RandomCallback no_weights two_lexis reuse_parms node_weight"

section \<open>The draws\<close>

lemma canonical_range: "0 \<le> canonical g \<and> canonical g < 1"
proof -
  let ?a = "shd g mod 2 ^ 32" and ?b = "shd (stl g) mod 2 ^ 32"
  have a: "?a < 2 ^ 32" and b: "?b < 2 ^ 32" by simp_all
  from b have "?b + 1 \<le> 2 ^ 32" by simp
  then have "(?b + 1) * 2 ^ 32 \<le> 2 ^ 32 * (2 ^ 32 :: nat)" by (rule mult_le_mono1)
  with a have "?a + ?b * 2 ^ 32 < (2 ^ 64 :: nat)" by simp
  then have "real (?a + ?b * 2 ^ 32) < real (2 ^ 64)" by (rule less_imp_of_nat_less)
  then have "real ?a + real ?b * 2 ^ 32 < 2 ^ 64" by simp
  then show ?thesis by (simp add: canonical_def)
qed

lemma length_partial_sum [simp]: "length (partial_sum acc ps) = length ps"
  by (induction ps arbitrary: acc) simp_all

lemma length_negative_so_far [simp]: "length (negative_so_far neg ws) = length ws"
  by (induction ws arbitrary: neg) simp_all

lemma length_below [simp]: "ws \<noteq> [] \<Longrightarrow> length (below ws p) = length ws"
  by (simp add: below_def cumulative_def)

lemma cumulative_last:
  assumes "ws \<noteq> []"
  shows "length (cumulative ws) = length ws" and "cumulative ws ! (length ws - 1) = 1"
proof -
  let ?cp = "butlast (partial_sum 0 (map (\<lambda>w. w / sum_list ws) ws))"
  have l: "length ?cp = length ws - 1" by simp
  show "length (cumulative ws) = length ws" using assms by (simp add: cumulative_def)
  have "(?cp @ [1]) ! length ?cp = 1" by (rule nth_append_length)
  then show "cumulative ws ! (length ws - 1) = 1" unfolding l cumulative_def .
qed

lemma below_last:
  assumes "ws \<noteq> []" and "p < 1"
  shows "\<not> below ws p ! (length ws - 1)"
proof (cases "sum_list ws = 0")
  case True
  let ?ns = "butlast (negative_so_far True ws)"
  have l: "length ?ns = length ws - 1" by simp
  have "(?ns @ [False]) ! length ?ns = False" by (rule nth_append_length)
  then have "(?ns @ [False]) ! (length ws - 1) = False" unfolding l .
  with True show ?thesis by (simp add: below_def)
next
  case False
  from assms(1) have "length ws - 1 < length (cumulative ws)"
    by (simp add: cumulative_last(1))
  then have "map (\<lambda>c. c < p) (cumulative ws) ! (length ws - 1)
               = (cumulative ws ! (length ws - 1) < p)"
    by (rule nth_map)
  with False assms cumulative_last(2) [OF assms(1)] show ?thesis
    by (simp add: below_def)
qed

lemma lower_bound_range:
  "first \<le> lower_bound lt first len \<and> lower_bound lt first len \<le> first + len"
proof (induction lt first len rule: lower_bound.induct)
  case (1 lt first len)
  show ?case
  proof (cases "len = 0")
    case True
    then show ?thesis by (simp add: lower_bound.simps)
  next
    case False
    let ?half = "len div 2"
    have half: "?half < len" using False by simp
    show ?thesis
    proof (cases "lt ! (first + ?half)")
      case True
      with False have "lower_bound lt first len
                         = lower_bound lt (first + ?half + 1) (len - ?half - 1)"
        by (subst lower_bound.simps) (simp add: Let_def)
      with "1.IH"(1) [OF False refl refl True] half show ?thesis by simp
    next
      case nl: False
      with False have "lower_bound lt first len = lower_bound lt first ?half"
        by (subst lower_bound.simps) (simp add: Let_def)
      with "1.IH"(2) [OF False refl refl nl] half show ?thesis by simp
    qed
  qed
qed

lemma lower_bound_previous:
  "first < lower_bound lt first len \<Longrightarrow> lt ! (lower_bound lt first len - 1)"
proof (induction lt first len rule: lower_bound.induct)
  case (1 lt first len)
  show ?case
  proof (cases "len = 0")
    case True
    with "1.prems" show ?thesis by (simp add: lower_bound.simps)
  next
    case False
    let ?half = "len div 2"
    show ?thesis
    proof (cases "lt ! (first + ?half)")
      case True
      let ?r = "lower_bound lt (first + ?half + 1) (len - ?half - 1)"
      from False True have eq: "lower_bound lt first len = ?r"
        by (subst lower_bound.simps) (simp add: Let_def)
      show ?thesis
      proof (cases "first + ?half + 1 < ?r")
        case True
        from "1.IH"(1) [OF False refl refl \<open>lt ! (first + ?half)\<close> True] eq show ?thesis by simp
      next
        case False
        with lower_bound_range [of "first + ?half + 1" lt "len - ?half - 1"]
        have "?r = first + ?half + 1" by simp
        with eq True show ?thesis by simp
      qed
    next
      case nl: False
      with False have eq: "lower_bound lt first len = lower_bound lt first ?half"
        by (subst lower_bound.simps) (simp add: Let_def)
      with "1.prems" "1.IH"(2) [OF False refl refl nl] show ?thesis by simp
    qed
  qed
qed

lemma draw_index_bound:
  assumes "distr \<noteq> []"
  shows "fst (draw distr g) < length distr"
proof (cases "length distr < 2")
  case True
  with assms show ?thesis by (simp add: draw_def)
next
  case False
  let ?lt = "below distr (canonical g)"
  let ?r = "lower_bound ?lt 0 (length distr)"
  have le: "?r \<le> length distr" using lower_bound_range [of 0 ?lt "length distr"] by simp
  have "?r \<noteq> length distr"
  proof
    assume eq: "?r = length distr"
    with assms have "0 < ?r" by simp
    from lower_bound_previous [OF this] eq have "?lt ! (length distr - 1)" by simp
    with below_last [OF assms, of "canonical g"] canonical_range [of g] show False by simp
  qed
  with le False show ?thesis by (simp add: draw_def)
qed

lemma draw_engine:
  "snd (draw distr g) = (if length distr < 2 then g else stl (stl g))"
  by (simp add: draw_def)

lemma draw_four:
  "draw [1, 1, 1, 1] g =
     (if canonical g \<le> 1 / 4 then 0 else if canonical g \<le> 1 / 2 then 1
      else if canonical g \<le> 3 / 4 then 2 else 3, stl (stl g))"
proof -
  have b: "below [1, 1, 1, 1] (canonical g) =
             [1 / 4 < canonical g, 1 / 2 < canonical g, 3 / 4 < canonical g, 1 < canonical g]"
    by (simp add: below_def cumulative_def)
  have 4: "(4::nat) div 2 = 2" "(2::nat) div 2 = 1" "(1::nat) div 2 = 0" by simp_all
  from canonical_range [of g] show ?thesis
    apply (simp add: draw_def b)
    apply (subst lower_bound.simps, simp add: Let_def 4)
    apply (subst lower_bound.simps, simp add: Let_def)
    apply (subst lower_bound.simps, simp add: Let_def)
    apply (simp add: lower_bound.simps Let_def)
    done
qed

lemma draw_pair:
  "draw [1, 1] g = (if canonical g \<le> 1 / 2 then 0 else 1, stl (stl g))"
proof -
  have b: "below [1, 1] (canonical g) = [1 / 2 < canonical g, 1 < canonical g]"
    by (simp add: below_def cumulative_def)
  have d: "(2::nat) div 2 = 1" "(1::nat) div 2 = 0" by simp_all
  from canonical_range [of g] show ?thesis
    apply (simp add: draw_def b)
    apply (subst lower_bound.simps, simp add: Let_def d)
    apply (subst lower_bound.simps, simp add: Let_def)
    apply (simp add: lower_bound.simps Let_def)
    done
qed



lemma canonical_low [simp]: "canonical (0 ## 0 ## g) = 0" "canonical (sconst 0) = 0"
  by (simp_all add: canonical_def)

lemma canonical_high: "3 / 4 < canonical (0 ## 4294967295 ## g)"
  by (simp add: canonical_def)

section \<open>The demo network\<close>

lemma person_eq [simp]: "person a = person b \<longleftrightarrow> a = b"
  by (simp add: person_def)

lemma person_conseq [simp]:
  "getOutgoingAtom (person a) (Suc 0) = Inr (Link CONNECTOR_SEQ [friend_con, friend_con])"
  by (simp add: person_def)

lemma connectable_two_open:
  "connectable (open_sections two_open) friend_con [] =
     Inr [person ''A'', person ''A'', person ''B'', person ''B'']"
  by (simp add: two_open_def)

lemma connectable_one_open:
  "connectable (open_sections one_open) friend_con [] = Inr [person ''A'', person ''A'']"
  by (simp add: one_open_def)

lemma redraw_B:
  assumes "3 / 4 < canonical g"
  shows "redraw [person ''A'', person ''A'', person ''B'', person ''B''] [1, 1, 1, 1] (person ''A'') g
           = Some (Inr (person ''B'', stl (stl g)))"
  using assms by (subst redraw.simps) (simp add: draw_four)

lemma redraw_A:
  assumes "canonical g \<le> 1 / 4"
  shows "redraw [person ''A'', person ''A'', person ''B'', person ''B''] [1, 1, 1, 1] (person ''B'') g
           = Some (Inr (person ''A'', stl (stl g)))"
  using assms by (subst redraw.simps) (simp add: draw_four)

lemma redraw_A_of_two:
  "redraw [person ''A'', person ''A''] [1, 1] (person ''B'') g
     = Some (Inr (person ''A'', stl (stl g)))"
  by (subst redraw.simps) (simp add: draw_pair)

lemma fresh_cb_open [simp]:
  "opensect (opensel fresh_cb) con = None" "opendi (opensel fresh_cb) con = None"
  "opensel_stack fresh_cb = []"
  by (simp_all add: fresh_cb_def RandomCallback_def empty_selections_def)

lemma cached_cb_open [simp]:
  "opensect (opensel cached_cb) friend_con
     = Some [person ''A'', person ''A'', person ''B'', person ''B'']"
  "opendi (opensel cached_cb) friend_con = Some [1, 1, 1, 1]"
  "opensel_stack cached_cb = []"
  by (simp_all add: cached_cb_def emplace_opendi_def set_opensect_def emplace_def)

lemma select_from_open_builds:
  assumes "opensect (opensel cb) to_con = None" and "opendi (opensel cb) to_con = None"
    and "connectable (open_sections frm) to_con [] = Inr to_sects"
    and "2 \<le> length to_sects" and "\<not> only_self to_sects fm_sect"
    and "redraw to_sects (replicate (length to_sects) 1) fm_sect g = Some (Inr (choice, g'))"
  shows "select_from_open cb frm fm_sect offset to_con g =
           Some (Inr (Some choice,
                      emplace_opendi (set_opensect cb to_con to_sects) to_con
                        (replicate (length to_sects) 1),
                      g'))"
proof -
  from assms(4) have "length to_sects \<noteq> 0" "length to_sects \<noteq> 1" by auto
  with assms show ?thesis
    by (simp add: select_from_open_def Let_def disallow_self_def)
qed

lemma select_from_open_fresh:
  "select_from_open fresh_cb two_open (person ''A'') 0 friend_con (0 ## 4294967295 ## g)
     = Some (Inr (Some (person ''B''), cached_cb, g))"
proof -
  have "select_from_open fresh_cb two_open (person ''A'') 0 friend_con (0 ## 4294967295 ## g)
     = Some (Inr (Some (person ''B''),
          emplace_opendi (set_opensect fresh_cb friend_con
              [person ''A'', person ''A'', person ''B'', person ''B''])
            friend_con (replicate (length [person ''A'', person ''A'', person ''B'', person ''B'']) 1),
          stl (stl (0 ## 4294967295 ## g))))"
    by (rule select_from_open_builds)
      (simp_all add: connectable_two_open redraw_B [OF canonical_high])
  then show ?thesis by (simp add: cached_cb_def)
qed

lemma parms_kept [simp]:
  "parms (push_frame frm cb) = parms cb"
  "parms (set_opensect cb con to_sects) = parms cb"
  "parms (emplace_opendi cb con distr) = parms cb"
  by (simp_all add: push_frame_def set_opensect_def emplace_opendi_def)

lemma opensel_stack_kept [simp]:
  "opensel_stack (push_frame frm cb) = opensel cb # opensel_stack cb"
  "opensel_stack (set_opensect cb con to_sects) = opensel_stack cb"
  "opensel_stack (emplace_opendi cb con distr) = opensel_stack cb"
  by (simp_all add: push_frame_def set_opensect_def emplace_opendi_def)

lemma demo_parms [simp]:
  "parms fresh_cb = reuse_parms" "parms cached_cb = reuse_parms"
  "connect_existing reuse_parms frm" "parms_step reuse_parms frm" "max_solutions reuse_parms = 1"
  by (simp_all add: fresh_cb_def cached_cb_def RandomCallback_def reuse_parms_def)

section \<open>Frames\<close>

lemma select_from_lexis_stack:
  "select_from_lexis cb frm fm off tc g = Inr (r, cb', g') \<Longrightarrow>
     opensel_stack cb' = opensel_stack cb \<and> opensel cb' = opensel cb"
  by (auto simp: select_from_lexis_def pick_unique_def Let_def
      split: if_splits option.splits sum.splits prod.splits)

lemma select_from_open_stack:
  "select_from_open cb frm fm off tc g = Some (Inr (r, cb', g')) \<Longrightarrow>
     opensel_stack cb' = opensel_stack cb"
  by (auto simp: select_from_open_def set_opensect_def emplace_opendi_def Let_def
      split: if_splits option.splits sum.splits prod.splits)

lemma select_stack:
  assumes "select cb frm fm off tc g = Some (Inr (r, cb', g'))"
  shows "opensel_stack cb' = opensel_stack cb"
proof (cases "connect_existing (parms cb) frm")
  case False
  with assms show ?thesis
    by (auto simp: select_def dest: select_from_lexis_stack)
next
  case True
  show ?thesis
  proof (cases "select_from_open cb frm fm off tc g")
    case None
    with True assms show ?thesis by (simp add: select_def)
  next
    case (Some res)
    show ?thesis
    proof (cases res)
      case (Inl e)
      with True Some assms show ?thesis by (simp add: select_def)
    next
      case (Inr tr)
      obtain ch cb1 g1 where tr: "tr = (ch, cb1, g1)" by (cases tr) auto
      have st1: "opensel_stack cb1 = opensel_stack cb"
        using Some Inr tr select_from_open_stack by blast
      show ?thesis
      proof (cases ch)
        case None
        with True Some Inr tr assms
        have "select_from_lexis cb1 frm fm off tc g1 = Inr (r, cb', g')"
          by (simp add: select_def)
        then show ?thesis using st1 select_from_lexis_stack by metis
      next
        case (Some open_sect)
        with True \<open>select_from_open cb frm fm off tc g = Some res\<close> Inr tr assms
        have "cb' = cb1" by (simp add: select_def)
        then show ?thesis using st1 by simp
      qed
    qed
  qed
qed

lemma call1_keeps_stack:
  assumes "call1 c (cb, g) = Some (cb', g')"
    and "\<forall>frm. c \<noteq> Push_frame frm" and "\<forall>frm. c \<noteq> Pop_frame frm"
  shows "opensel_stack cb' = opensel_stack cb"
proof (cases c)
  case (Select frm fm off tc)
  with assms(1) show ?thesis
    by (auto split: option.splits sum.splits prod.splits dest: select_stack)
next
  case (Solution frm)
  with assms(1) show ?thesis by (auto simp: solution_def record_solution_def)
qed (use assms in auto)

lemma run_nested_stack:
  "nested d cs \<Longrightarrow> run cs (cb, g) = Some (cb', g') \<Longrightarrow> d \<le> length (opensel_stack cb) \<Longrightarrow>
     opensel_stack cb' = drop d (opensel_stack cb)"
proof (induction cs arbitrary: d cb g)
  case Nil
  then show ?case by simp
next
  case (Cons c cs)
  from Cons.prems(2) obtain cb1 g1 where
    c1: "call1 c (cb, g) = Some (cb1, g1)" and rest: "run cs (cb1, g1) = Some (cb', g')"
    by (auto split: option.splits)
  show ?case
  proof (cases c)
    case (Push_frame frm)
    with c1 have st: "opensel_stack cb1 = opensel cb # opensel_stack cb"
      by (auto simp: push_frame_def)
    from Push_frame Cons.prems(1) have "nested (Suc d) cs" by simp
    from Cons.IH [OF this rest] st Cons.prems(3) show ?thesis by simp
  next
    case (Pop_frame frm)
    with Cons.prems(1) have d: "0 < d" and n: "nested (d - 1) cs" by simp_all
    from Pop_frame c1 obtain saved where
      st: "opensel_stack cb = saved # opensel_stack cb1"
      by (auto simp: pop_frame_def split: sum.splits list.splits)
    from Cons.IH [OF n rest] st Cons.prems(3) d show ?thesis
      by (cases d) simp_all
  next
    case (Select frm fm off tc)
    then have st: "opensel_stack cb1 = opensel_stack cb"
      using call1_keeps_stack [OF c1] by simp
    from Select Cons.prems(1) have "nested d cs" by simp
    from Cons.IH [OF this rest] st Cons.prems(3) show ?thesis by simp
  next
    case (Step frm)
    then have st: "opensel_stack cb1 = opensel_stack cb"
      using call1_keeps_stack [OF c1] by simp
    from Step Cons.prems(1) have "nested d cs" by simp
    from Cons.IH [OF this rest] st Cons.prems(3) show ?thesis by simp
  next
    case (Solution frm)
    then have st: "opensel_stack cb1 = opensel_stack cb"
      using call1_keeps_stack [OF c1] by simp
    from Solution Cons.prems(1) have "nested d cs" by simp
    from Cons.IH [OF this rest] st Cons.prems(3) show ?thesis by simp
  qed
qed

text \<open>
  C4. A pop after the matching push restores the open selections: whatever a strictly
  nested branch of calls has stored in the candidate lists and the choosers since the
  \<open>push_frame\<close>, the closing \<open>pop_frame\<close> returns, and returns the callback with both
  caches, and the stack of saved ones, as they were before the \<open>push_frame\<close>.
\<close>

theorem pop_after_push_restores:
  assumes "nested 0 branch"
    and "run branch (push_frame f1 cb, g) = Some (cbm, gm)"
  shows "pop_frame f2 cbm = Inr (cbm\<lparr>opensel := opensel cb, opensel_stack := opensel_stack cb\<rparr>)"
proof -
  have "opensel_stack cbm = drop 0 (opensel_stack (push_frame f1 cb))"
    using assms by (rule run_nested_stack) simp
  then have "opensel_stack cbm = opensel cb # opensel_stack cb"
    by (simp add: push_frame_def)
  then show ?thesis by (simp add: pop_frame_def)
qed

lemma deep_cb_fields [simp]:
  "opensect (opensel deep_cb) friend_con
     = Some [person ''A'', person ''A'', person ''B'', person ''B'']"
  "opensel_stack deep_cb = [empty_selections]"
  "parms deep_cb = reuse_parms"
  by (simp_all add: deep_cb_def emplace_opendi_def set_opensect_def fresh_cb_def
      RandomCallback_def push_frame_def)

lemma pushed_is_empty [simp]:
  "opensect (opensel (push_frame frm cb)) con = None"
  "opendi (opensel (push_frame frm cb)) con = None"
  by (simp_all add: push_frame_def empty_selections_def)

theorem pop_after_push_restores_witness:
  "nested 0 [Select one_open (person ''B'') 0 friend_con, Push_frame one_open,
             Select two_open (person ''B'') 0 friend_con, Pop_frame one_open]
   \<and> run [Push_frame two_open, Select two_open (person ''A'') 0 friend_con]
         (fresh_cb, 0 ## 4294967295 ## sconst 0) = Some (deep_cb, sconst 0)
   \<and> (\<exists>cbm. run [Select one_open (person ''B'') 0 friend_con, Push_frame one_open,
                   Select two_open (person ''B'') 0 friend_con, Pop_frame one_open]
               (push_frame two_open deep_cb, sconst 0) = Some (cbm, sconst 0)
          \<and> opensect (opensel cbm) friend_con = Some [person ''A'', person ''A'']
          \<and> opensect (opensel deep_cb) friend_con
               = Some [person ''A'', person ''A'', person ''B'', person ''B'']
          \<and> opensel_stack deep_cb = [empty_selections]
          \<and> pop_frame one_open cbm
               = Inr (cbm\<lparr>opensel := opensel deep_cb, opensel_stack := opensel_stack deep_cb\<rparr>))"
proof -
  let ?branch = "[Select one_open (person ''B'') 0 friend_con, Push_frame one_open,
                  Select two_open (person ''B'') 0 friend_con, Pop_frame one_open]"
  let ?s0 = "push_frame two_open deep_cb"
  let ?cb1 = "emplace_opendi (set_opensect ?s0 friend_con [person ''A'', person ''A''])
                friend_con [1, 1]"
  let ?cb2 = "push_frame one_open ?cb1"
  let ?cb3 = "emplace_opendi (set_opensect ?cb2 friend_con
                  [person ''A'', person ''A'', person ''B'', person ''B''])
                friend_con [1, 1, 1, 1]"
  let ?cbm = "?cb3\<lparr>opensel := opensel ?cb1, opensel_stack := opensel_stack ?cb1\<rparr>"
  have n: "nested 0 ?branch" by simp
  have reach: "run [Push_frame two_open, Select two_open (person ''A'') 0 friend_con]
         (fresh_cb, 0 ## 4294967295 ## sconst 0) = Some (deep_cb, sconst 0)"
  proof -
    have "select_from_open (push_frame two_open fresh_cb) two_open (person ''A'') 0 friend_con
            (0 ## 4294967295 ## sconst 0)
          = Some (Inr (Some (person ''B''),
               emplace_opendi (set_opensect (push_frame two_open fresh_cb) friend_con
                   [person ''A'', person ''A'', person ''B'', person ''B''])
                 friend_con
                 (replicate (length [person ''A'', person ''A'', person ''B'', person ''B'']) 1),
               stl (stl (0 ## 4294967295 ## sconst 0))))"
      by (rule select_from_open_builds)
      (simp_all add: connectable_two_open redraw_B [OF canonical_high])
    then have "select (push_frame two_open fresh_cb) two_open (person ''A'') 0 friend_con
            (0 ## 4294967295 ## sconst 0) = Some (Inr (Some (person ''B''), deep_cb, sconst 0))"
      by (simp add: select_def deep_cb_def)
    then show ?thesis by simp
  qed
  have s1: "select ?s0 one_open (person ''B'') 0 friend_con (sconst 0)
              = Some (Inr (Some (person ''A''), ?cb1, sconst 0))"
  proof -
    have "select_from_open ?s0 one_open (person ''B'') 0 friend_con (sconst 0)
            = Some (Inr (Some (person ''A''),
                emplace_opendi (set_opensect ?s0 friend_con [person ''A'', person ''A''])
                  friend_con (replicate (length [person ''A'', person ''A'']) 1),
                stl (stl (sconst 0))))"
      by (rule select_from_open_builds) (simp_all add: connectable_one_open redraw_A_of_two)
    then show ?thesis by (simp add: select_def)
  qed
  have s2: "select ?cb2 two_open (person ''B'') 0 friend_con (sconst 0)
              = Some (Inr (Some (person ''A''), ?cb3, sconst 0))"
  proof -
    have "select_from_open ?cb2 two_open (person ''B'') 0 friend_con (sconst 0)
            = Some (Inr (Some (person ''A''),
                emplace_opendi (set_opensect ?cb2 friend_con
                    [person ''A'', person ''A'', person ''B'', person ''B''])
                  friend_con
                  (replicate (length [person ''A'', person ''A'', person ''B'', person ''B'']) 1),
                stl (stl (sconst 0))))"
      by (rule select_from_open_builds) (simp_all add: connectable_two_open redraw_A)
    then show ?thesis by (simp add: select_def)
  qed
  have p: "pop_frame one_open ?cb3 = Inr ?cbm"
    by (simp add: pop_frame_def)
  have r: "run ?branch (?s0, sconst 0) = Some (?cbm, sconst 0)"
    by (simp add: s1 s2 p)
  have mid: "opensect (opensel ?cbm) friend_con = Some [person ''A'', person ''A'']"
    by (simp add: emplace_opendi_def set_opensect_def)
  from pop_after_push_restores [OF n r, of one_open]
  have "pop_frame one_open ?cbm
          = Inr (?cbm\<lparr>opensel := opensel deep_cb, opensel_stack := opensel_stack deep_cb\<rparr>)" .
  with n reach r mid show ?thesis by (intro conjI exI [of _ ?cbm]) simp_all
qed

text \<open>
  C9. Neither \<open>push_frame\<close> nor \<open>pop_frame\<close> touches the distributions cached for the
  lexis: for every connector, the chooser in \<open>distmap\<close> after the call is the one before.
\<close>

theorem frames_keep_distmap:
  "distmap (push_frame frm cb) to_con = distmap cb to_con \<and>
   (\<forall>cb'. pop_frame frm cb = Inr cb' \<longrightarrow> distmap cb' to_con = distmap cb to_con)"
  by (auto simp: push_frame_def pop_frame_def split: list.splits)

theorem frames_keep_distmap_witness:
  "pop_frame two_open (push_frame two_open (cached_cb\<lparr>distmap := [friend_con \<mapsto> [1, 3]]\<rparr>))
     = Inr (cached_cb\<lparr>distmap := [friend_con \<mapsto> [1, 3]]\<rparr>)
   \<and> distmap (push_frame two_open (cached_cb\<lparr>distmap := [friend_con \<mapsto> [1, 3]]\<rparr>)) friend_con
       = Some [1, 3]"
proof -
  let ?cb = "cached_cb\<lparr>distmap := [friend_con \<mapsto> [1, 3]]\<rparr>"
  have p: "pop_frame two_open (push_frame two_open ?cb) = Inr ?cb"
    by (simp add: pop_frame_def push_frame_def)
  have a: "distmap (push_frame two_open ?cb) friend_con = distmap ?cb friend_con"
    using frames_keep_distmap [of two_open ?cb friend_con] by blast
  have b: "distmap ?cb friend_con = distmap (push_frame two_open ?cb) friend_con"
    using frames_keep_distmap [of two_open "push_frame two_open ?cb" friend_con] p by blast
  have c: "distmap ?cb friend_con = Some [1, 3]"
    by simp
  from a c have "distmap (push_frame two_open ?cb) friend_con = Some [1, 3]"
    by (rule trans)
  with p show ?thesis by (rule conjI)
qed

section \<open>Self-connections\<close>

text \<open>
  C1. The claim is that \<open>select_from_open\<close> never returns the requesting section. With a
  chooser cached for the connector it does: the first call below, from person A, draws B
  and caches the chooser over A, A, B, B; the second call, again from A, draws index 0
  from the cached chooser and returns A itself, with no test against the requester.
\<close>

theorem cached_chooser_returns_self:
  "select_from_open fresh_cb two_open (person ''A'') 0 friend_con (0 ## 4294967295 ## 0 ## 0 ## g)
     = Some (Inr (Some (person ''B''), cached_cb, 0 ## 0 ## g))
   \<and> select_from_open cached_cb two_open (person ''A'') 1 friend_con (0 ## 0 ## g)
     = Some (Inr (Some (person ''A''), cached_cb, g))"
  by (simp add: select_from_open_fresh) (simp add: select_from_open_def draw_four)

section \<open>The cap on solutions\<close>

text \<open>
  C2. The claim is that the count of solutions never exceeds \<open>max_solutions\<close>. With the
  cap at 1 and one solution recorded, \<open>step\<close> still answers true, since it halts only
  once the cap is smaller than the count; a second solution brings the count to 2.
\<close>

theorem step_continues_at_cap:
  "max_solutions (parms fresh_cb) = 1
   \<and> num_solutions_found (solution two_open fresh_cb) = 1
   \<and> step (solution two_open fresh_cb) two_open
   \<and> num_solutions_found (solution two_open (solution two_open fresh_cb)) = 2
   \<and> \<not> step (solution two_open (solution two_open fresh_cb)) two_open"
  by (simp add: step_def solution_def record_solution_def fresh_cb_def RandomCallback_def
      reuse_parms_def)

section \<open>Pole pairs\<close>

text \<open>
  C5. The claim is that the declared pair of connector types is registered. On the pole
  set of the demo, whose one member is the symmetric pair of \<open>*\<close> with \<open>*\<close>, the loop
  takes both poles from the membership link: it registers the declaration itself against
  the pole set, and the pair of \<open>*\<close> with \<open>*\<close> is not registered, whatever the type
  hierarchy.
\<close>

theorem poles_taken_from_member_link:
  "\<exists>d. do_random_aggregate_poles isA demo_space any_to_any = Inr d
     \<and> (Link SET_LINK [star, star], any_to_any) \<in> set (pole_pairs d)
     \<and> (star, star) \<notin> set (pole_pairs d)"
  by (cases "isA MEMBER_LINK UNORDERED_LINK")
    (simp_all add: do_random_aggregate_poles_def get_incoming_by_type_def demo_space_def
      add_pole_pair_def any_to_any_def star_def)

section \<open>What the redraw loop returns\<close>

lemma redraw_result_aux:
  assumes "redraw to_sects distr fm_sect g = Some res"
  shows "distr \<noteq> [] \<longrightarrow> length distr = length to_sects \<longrightarrow>
           (\<exists>choice g'. res = Inr (choice, g') \<and> choice \<noteq> fm_sect \<and> choice \<in> set to_sects)"
proof (rule redraw.raw_induct
    [where P = "\<lambda>to_sects distr fm_sect g res. distr \<noteq> [] \<longrightarrow> length distr = length to_sects \<longrightarrow>
           (\<exists>choice g'. res = Inr (choice, g') \<and> choice \<noteq> fm_sect \<and> choice \<in> set to_sects)",
     OF _ assms])
  fix redraw' :: "atom list \<Rightarrow> real list \<Rightarrow> atom \<Rightarrow> rangen \<Rightarrow> (error + atom \<times> rangen) option"
  fix to_sects distr fm_sect g res
  assume IH: "\<And>to_sects distr fm_sect g res. redraw' to_sects distr fm_sect g = Some res \<Longrightarrow>
           distr \<noteq> [] \<longrightarrow> length distr = length to_sects \<longrightarrow>
           (\<exists>choice g'. res = Inr (choice, g') \<and> choice \<noteq> fm_sect \<and> choice \<in> set to_sects)"
  assume body: "(case draw distr g of
        (i, g') \<Rightarrow>
          if i < length to_sects then
            (if to_sects ! i \<noteq> fm_sect then Some (Inr (to_sects ! i, g'))
             else redraw' to_sects distr fm_sect g')
          else Some (Inl UndefinedBehaviour)) = Some res"
  show "distr \<noteq> [] \<longrightarrow> length distr = length to_sects \<longrightarrow>
           (\<exists>choice g'. res = Inr (choice, g') \<and> choice \<noteq> fm_sect \<and> choice \<in> set to_sects)"
  proof (intro impI)
    assume ne: "distr \<noteq> []" and len: "length distr = length to_sects"
    obtain i g' where d: "draw distr g = (i, g')" by (cases "draw distr g")
    with draw_index_bound [OF ne, of g] len have i: "i < length to_sects" by simp
    show "\<exists>choice g'. res = Inr (choice, g') \<and> choice \<noteq> fm_sect \<and> choice \<in> set to_sects"
    proof (cases "to_sects ! i \<noteq> fm_sect")
      case True
      with body d i show ?thesis by auto
    next
      case False
      with body d i have "redraw' to_sects distr fm_sect g' = Some res" by simp
      from IH [OF this] ne len show ?thesis by blast
    qed
  qed
qed

lemma redraw_result:
  assumes "redraw to_sects distr fm_sect g = Some res"
    and "distr \<noteq> []" and "length distr = length to_sects"
  shows "\<exists>choice g'. res = Inr (choice, g') \<and> choice \<noteq> fm_sect \<and> choice \<in> set to_sects"
  using redraw_result_aux [OF assms(1)] assms(2,3) by blast

section \<open>The invariant of the open selections\<close>

lemma chooser_has_list_empty: "chooser_has_list empty_selections"
  by (simp add: chooser_has_list_def empty_selections_def)

lemma chooser_has_list_set_opensect:
  assumes "chooser_has_list (opensel cb)" and "opendi (opensel cb) to_con = None"
  shows "chooser_has_list (opensel (set_opensect cb to_con to_sects))"
  using assms by (auto simp: chooser_has_list_def set_opensect_def)

lemma chooser_has_list_emplace_opendi:
  assumes "chooser_has_list (opensel cb)" and "opensect (opensel cb) to_con = Some to_sects"
    and "2 \<le> length to_sects" and "length distr = length to_sects"
  shows "chooser_has_list (opensel (emplace_opendi cb to_con distr))"
  using assms
  by (auto simp: chooser_has_list_def emplace_opendi_def emplace_def split: option.splits)

lemma opensect_set_opensect [simp]:
  "opensect (opensel (set_opensect cb to_con to_sects)) to_con = Some to_sects"
  by (simp add: set_opensect_def)

lemma select_from_open_chooser_has_list:
  assumes inv: "chooser_has_list (opensel cb)"
    and sel: "select_from_open cb frm fm_sect offset to_con g = Some (Inr (r, cb', g'))"
  shows "chooser_has_list (opensel cb')"
proof (cases "opensect (opensel cb) to_con = Some [] \<or> opendi (opensel cb) to_con \<noteq> None")
  case True
  with sel have "cb' = cb"
    by (auto simp: select_from_open_def Let_def split: option.splits prod.splits if_splits)
  with inv show ?thesis by simp
next
  case False
  then have nodi: "opendi (opensel cb) to_con = None" by simp
  from False sel obtain to_sects where
    con: "connectable (open_sections frm) to_con [] = Inr to_sects"
    by (auto simp: select_from_open_def Let_def split: sum.splits)
  let ?cb1 = "set_opensect cb to_con to_sects"
  let ?cb2 = "emplace_opendi ?cb1 to_con (replicate (length to_sects) 1)"
  have inv1: "chooser_has_list (opensel ?cb1)"
    using inv nodi by (rule chooser_has_list_set_opensect)
  have "cb' = ?cb1 \<or> (cb' = ?cb2 \<and> 2 \<le> length to_sects)"
  proof (cases "2 \<le> length to_sects")
    case True
    with False sel con show ?thesis
      by (auto simp: select_from_open_def Let_def
          split: sum.splits option.splits prod.splits if_splits)
  next
    case small: False
    then have "length to_sects = 0 \<or> length to_sects = 1" by linarith
    with False sel con show ?thesis
      by (auto simp: select_from_open_def Let_def split: if_splits)
  qed
  then show ?thesis
  proof
    assume "cb' = ?cb1"
    with inv1 show ?thesis by simp
  next
    assume c2: "cb' = ?cb2 \<and> 2 \<le> length to_sects"
    from c2 have two: "2 \<le> length to_sects" ..
    have "chooser_has_list (opensel ?cb2)"
      using inv1 opensect_set_opensect two
      by (rule chooser_has_list_emplace_opendi) simp
    with c2 show ?thesis by simp
  qed
qed

lemma select_from_open_defined:
  assumes inv: "chooser_has_list (opensel cb)"
  shows "select_from_open cb frm fm_sect offset to_con g \<noteq> Some (Inl UndefinedBehaviour)"
proof (cases "opendi (opensel cb) to_con")
  case (Some distr)
  with inv obtain to_sects where
    l: "opensect (opensel cb) to_con = Some to_sects" "2 \<le> length to_sects"
       "length distr = length to_sects"
    by (auto simp: chooser_has_list_def)
  then have "distr \<noteq> []" by auto
  from draw_index_bound [OF this, of g] l(3) have "fst (draw distr g) < length to_sects" by simp
  with Some l show ?thesis
    by (auto simp: select_from_open_def Let_def split: prod.splits)
next
  case None
  show ?thesis
  proof (cases "connectable (open_sections frm) to_con []")
    case (Inl e)
    have "\<And>open_sects acc. connectable open_sects to_con acc \<noteq> Inl UndefinedBehaviour"
    proof -
      fix open_sects acc
      show "connectable open_sects to_con acc \<noteq> Inl UndefinedBehaviour"
      proof (induction open_sects arbitrary: acc)
        case Nil
        show ?case by simp
      next
        case (Cons a open_sects)
        show ?case
          by (cases a) (auto simp: Cons.IH split: sum.splits)
      qed
    qed
    with Inl None show ?thesis
      by (auto simp: select_from_open_def Let_def)
  next
    case (Inr to_sects)
    show ?thesis
    proof (cases "2 \<le> length to_sects")
      case False
      then have "length to_sects = 0 \<or> length to_sects = 1" by linarith
      with None Inr show ?thesis
        by (auto simp: select_from_open_def Let_def)
    next
      case True
      let ?d = "replicate (length to_sects) (1::real)"
      from True have ne: "?d \<noteq> []" by auto
      have "redraw to_sects ?d fm_sect g \<noteq> Some (Inl UndefinedBehaviour)"
        using redraw_result [of to_sects ?d fm_sect g, OF _ ne] by fastforce
      moreover have "fst (draw ?d g) < length to_sects"
        using draw_index_bound [OF ne, of g] by simp
      ultimately show ?thesis using None Inr True
        by (auto simp: select_from_open_def Let_def split: option.splits sum.splits prod.splits)
    qed
  qed
qed

text \<open>
  C10. Every connector with a chooser also has a candidate list, of at least two sections
  and of the chooser's length, in the current selections and in every saved one. This
  holds of a new callback and is kept by \<open>push_frame\<close>, \<open>pop_frame\<close> and
  \<open>select_from_open\<close>; under it the branch that reuses a chooser always finds its list
  and indexes it in range.
\<close>

theorem open_inv_preserved:
  "open_inv (RandomCallback vals d p key) \<and>
   (open_inv cb \<longrightarrow>
      open_inv (push_frame frm cb) \<and>
      (\<forall>cb'. pop_frame frm cb = Inr cb' \<longrightarrow> open_inv cb') \<and>
      (\<forall>r cb' g'. select_from_open cb frm fm_sect offset to_con g = Some (Inr (r, cb', g'))
         \<longrightarrow> open_inv cb') \<and>
      select_from_open cb frm fm_sect offset to_con g \<noteq> Some (Inl UndefinedBehaviour))"
proof (intro conjI impI allI)
  show "open_inv (RandomCallback vals d p key)"
    by (simp add: open_inv_def RandomCallback_def chooser_has_list_empty)
next
  assume "open_inv cb"
  then show "open_inv (push_frame frm cb)"
    by (simp add: open_inv_def push_frame_def chooser_has_list_empty)
next
  fix cb'
  assume "open_inv cb" and "pop_frame frm cb = Inr cb'"
  then show "open_inv cb'"
    by (auto simp: open_inv_def pop_frame_def split: list.splits)
next
  fix r cb' g'
  assume inv: "open_inv cb"
    and sel: "select_from_open cb frm fm_sect offset to_con g = Some (Inr (r, cb', g'))"
  from inv have "chooser_has_list (opensel cb)" by (simp add: open_inv_def)
  from select_from_open_chooser_has_list [OF this sel] select_from_open_stack [OF sel] inv
  show "open_inv cb'" by (simp add: open_inv_def)
next
  assume "open_inv cb"
  then have "chooser_has_list (opensel cb)" by (simp add: open_inv_def)
  then show "select_from_open cb frm fm_sect offset to_con g \<noteq> Some (Inl UndefinedBehaviour)"
    by (rule select_from_open_defined)
qed

theorem open_inv_preserved_witness:
  "open_inv cached_cb \<and> open_inv (push_frame two_open cached_cb)
   \<and> pop_frame two_open (push_frame two_open cached_cb) = Inr cached_cb
   \<and> select_from_open cached_cb two_open (person ''A'') 1 friend_con (sconst 0)
       \<noteq> Some (Inl UndefinedBehaviour)
   \<and> select_from_open fresh_cb two_open (person ''A'') 0 friend_con (0 ## 4294967295 ## sconst 0)
       = Some (Inr (Some (person ''B''), cached_cb, sconst 0))"
proof -
  have start: "open_inv fresh_cb"
    using open_inv_preserved [of no_weights no_lexis reuse_parms node_weight]
    by (simp add: fresh_cb_def)
  have sel: "select_from_open fresh_cb two_open (person ''A'') 0 friend_con (0 ## 4294967295 ## sconst 0)
       = Some (Inr (Some (person ''B''), cached_cb, sconst 0))"
    by (rule select_from_open_fresh)
  have inv: "open_inv cached_cb"
    using open_inv_preserved [of no_weights no_lexis reuse_parms node_weight fresh_cb two_open
        "person ''A''" 0 friend_con "0 ## 4294967295 ## sconst 0"] start sel
    by blast
  have pop: "pop_frame two_open (push_frame two_open cached_cb) = Inr cached_cb"
    by (simp add: pop_frame_def push_frame_def)
  from open_inv_preserved [of no_weights no_lexis reuse_parms node_weight cached_cb two_open
        "person ''A''" 1 friend_con "sconst 0"] inv
  have "open_inv (push_frame two_open cached_cb)"
    and "select_from_open cached_cb two_open (person ''A'') 1 friend_con (sconst 0)
           \<noteq> Some (Inl UndefinedBehaviour)"
    by blast+
  with inv pop sel show ?thesis by blast
qed

section \<open>Weights of the lexis\<close>




lemma person_is_section [simp]: "is_section (person a)"
  by (simp add: person_def)


lemma lexis_cb_fields [simp]:
  "sections (dict lexis_cb) friend_con = [person ''P'', person ''Q'']"
  "distmap lexis_cb = Map.empty" "serial lexis_cb = 0"
  "atom_values lexis_cb = weights_1_3" "weight_key lexis_cb = node_weight"
  by (simp_all add: lexis_cb_def RandomCallback_def two_lexis_def)

lemma unweighted_cb_fields [simp]:
  "sections (dict unweighted_cb) friend_con = [person ''P'', person ''Q'']"
  "distmap unweighted_cb = Map.empty" "serial unweighted_cb = 0"
  "atom_values unweighted_cb = no_weights" "weight_key unweighted_cb = node_weight"
  by (simp_all add: unweighted_cb_def RandomCallback_def two_lexis_def)



section \<open>Dead ends\<close>

lemma select_from_open_dict:
  "select_from_open cb frm fm_sect offset to_con g = Some (Inr (r, cb', g')) \<Longrightarrow> dict cb' = dict cb"
  by (auto simp: select_from_open_def set_opensect_def emplace_opendi_def Let_def
      split: if_splits option.splits sum.splits prod.splits)

lemma only_self_fresh:
  assumes "opendi (opensel cb) to_con = None" and "opensect (opensel cb) to_con \<noteq> Some []"
    and "connectable (open_sections frm) to_con [] = Inr to_sects"
    and "only_self to_sects fm_sect"
  shows "select_from_open cb frm fm_sect offset to_con g
           = Some (Inr (None, set_opensect cb to_con to_sects, g))"
proof (cases to_sects)
  case Nil
  with assms show ?thesis by (simp add: select_from_open_def)
next
  case (Cons s rest)
  with assms(4) have "s = fm_sect" by (simp split: if_splits)
  with Cons assms show ?thesis
    by (cases rest) (simp_all add: select_from_open_def Let_def disallow_self_def split: if_splits)
qed

text \<open>
  C7. When the lexis has no section for the connector, \<open>select\<close> returns the undefined
  handle, normally and without an exception, whenever the open sections yield nothing:
  when reuse is not tried; when \<open>select_from_open\<close> returns undefined; and in particular
  when no chooser is cached and every open section carrying the connector is the
  requester itself.
\<close>

theorem select_dead_end:
  assumes "sections (dict cb) to_con = []"
  shows "(\<not> connect_existing (parms cb) frm \<longrightarrow>
            select cb frm fm_sect offset to_con g = Some (Inr (None, cb, g)))
       \<and> (connect_existing (parms cb) frm \<longrightarrow>
            select_from_open cb frm fm_sect offset to_con g = Some (Inr (None, cb1, g1)) \<longrightarrow>
            select cb frm fm_sect offset to_con g = Some (Inr (None, cb1, g1)))
       \<and> (connect_existing (parms cb) frm \<longrightarrow>
            opendi (opensel cb) to_con = None \<longrightarrow> opensect (opensel cb) to_con \<noteq> Some [] \<longrightarrow>
            connectable (open_sections frm) to_con [] = Inr to_sects \<longrightarrow>
            only_self to_sects fm_sect \<longrightarrow>
            select cb frm fm_sect offset to_con g
              = Some (Inr (None, set_opensect cb to_con to_sects, g)))"
proof (intro conjI impI)
  assume "\<not> connect_existing (parms cb) frm"
  with assms show "select cb frm fm_sect offset to_con g = Some (Inr (None, cb, g))"
    by (simp add: select_def select_from_lexis_def)
next
  assume ce: "connect_existing (parms cb) frm"
    and op: "select_from_open cb frm fm_sect offset to_con g = Some (Inr (None, cb1, g1))"
  from select_from_open_dict [OF op] assms have "sections (dict cb1) to_con = []" by simp
  with ce op show "select cb frm fm_sect offset to_con g = Some (Inr (None, cb1, g1))"
    by (simp add: select_def select_from_lexis_def)
next
  assume ce: "connect_existing (parms cb) frm"
    and "opendi (opensel cb) to_con = None" and "opensect (opensel cb) to_con \<noteq> Some []"
    and "connectable (open_sections frm) to_con [] = Inr to_sects"
    and "only_self to_sects fm_sect"
  then have op: "select_from_open cb frm fm_sect offset to_con g
                   = Some (Inr (None, set_opensect cb to_con to_sects, g))"
    by (simp add: only_self_fresh)
  from select_from_open_dict [OF op] assms
  have "sections (dict (set_opensect cb to_con to_sects)) to_con = []" by simp
  with ce op show "select cb frm fm_sect offset to_con g
                     = Some (Inr (None, set_opensect cb to_con to_sects, g))"
    by (simp add: select_def select_from_lexis_def)
qed

theorem select_dead_end_witness:
  "sections (dict fresh_cb) friend_con = []
   \<and> connect_existing (parms fresh_cb) one_open
   \<and> connectable (open_sections one_open) friend_con [] = Inr [person ''A'', person ''A'']
   \<and> only_self [person ''A'', person ''A''] (person ''A'')
   \<and> select fresh_cb one_open (person ''A'') 0 friend_con (sconst 0)
       = Some (Inr (None, set_opensect fresh_cb friend_con [person ''A'', person ''A''], sconst 0))
   \<and> select (fresh_cb\<lparr>parms := reuse_parms\<lparr>connect_existing := (\<lambda>frm. False)\<rparr>\<rparr>) one_open
         (person ''A'') 0 friend_con (sconst 0)
       = Some (Inr (None, fresh_cb\<lparr>parms := reuse_parms\<lparr>connect_existing := (\<lambda>frm. False)\<rparr>\<rparr>,
                    sconst 0))"
proof -
  have lex: "sections (dict fresh_cb) friend_con = []"
    by (simp add: fresh_cb_def RandomCallback_def no_lexis_def)
  have ce: "connect_existing (parms fresh_cb) one_open" by simp
  have con: "connectable (open_sections one_open) friend_con [] = Inr [person ''A'', person ''A'']"
    by (simp add: one_open_def)
  have os: "only_self [person ''A'', person ''A''] (person ''A'')" by simp
  have a: "select fresh_cb one_open (person ''A'') 0 friend_con (sconst 0)
       = Some (Inr (None, set_opensect fresh_cb friend_con [person ''A'', person ''A''], sconst 0))"
    using select_dead_end [OF lex, of one_open "person ''A''" 0 "sconst 0" _ _
        "[person ''A'', person ''A'']"] ce con os
    by simp
  let ?cb = "fresh_cb\<lparr>parms := reuse_parms\<lparr>connect_existing := (\<lambda>frm. False)\<rparr>\<rparr>"
  have lex': "sections (dict ?cb) friend_con = []"
    by (simp add: fresh_cb_def RandomCallback_def no_lexis_def)
  have b: "select ?cb one_open (person ''A'') 0 friend_con (sconst 0) = Some (Inr (None, ?cb, sconst 0))"
    using select_dead_end [OF lex', of one_open "person ''A''" 0 "sconst 0"] by simp
  from lex ce con os a b show ?thesis by blast
qed

section \<open>The redraw loop\<close>

text \<open>
  Without a cached chooser \<open>select_from_open\<close> never returns the requester. The loop
  returns as soon as the engine draws a candidate other than the requester; on an engine
  that draws the requester for ever it does not return.
\<close>

lemma select_from_open_fresh_not_self:
  assumes nodi: "opendi (opensel cb) to_con = None"
    and sel: "select_from_open cb frm fm_sect offset to_con g = Some (Inr (Some sect, cb', g'))"
  shows "sect \<noteq> fm_sect"
proof -
  from sel nodi obtain to_sects where
    con: "connectable (open_sections frm) to_con [] = Inr to_sects"
    by (auto simp: select_from_open_def Let_def split: sum.splits if_splits)
  show ?thesis
  proof (cases "2 \<le> length to_sects")
    case False
    then have "length to_sects = 0 \<or> length to_sects = 1" by linarith
    with sel nodi con show ?thesis
      by (auto simp: select_from_open_def Let_def disallow_self_def split: if_splits)
  next
    case True
    let ?d = "replicate (length to_sects) (1::real)"
    from True have len: "length to_sects \<noteq> 0" "length to_sects \<noteq> 1" by auto
    from True have ne: "?d \<noteq> []" by auto
    from sel nodi con len obtain res where
      rd: "redraw to_sects ?d fm_sect g = Some res" and res: "res = Inr (sect, g')"
      by (auto simp: select_from_open_def Let_def disallow_self_def
          split: option.splits sum.splits if_splits)
    from redraw_result [OF rd ne] res show ?thesis by auto
  qed
qed

lemma redraw_returns_once_drawn:
  assumes "2 \<le> length to_sects" and "length distr = length to_sects"
    and "to_sects ! fst (draw distr (sdrop (2 * k) g)) \<noteq> fm_sect"
  shows "\<exists>choice g'. redraw to_sects distr fm_sect g = Some (Inr (choice, g')) \<and> choice \<noteq> fm_sect"
  using assms(3)
proof (induction k arbitrary: g)
  case 0
  from assms(1,2) have ne: "distr \<noteq> []" by auto
  obtain i g' where d: "draw distr g = (i, g')" by (cases "draw distr g")
  with draw_index_bound [OF ne, of g] assms(2) have "i < length to_sects" by simp
  with 0 d show ?case by (subst redraw.simps) simp
next
  case (Suc k)
  from assms(1,2) have ne: "distr \<noteq> []" by auto
  obtain i g' where d: "draw distr g = (i, g')" by (cases "draw distr g")
  with draw_index_bound [OF ne, of g] assms(2) have i: "i < length to_sects" by simp
  from d draw_engine [of distr g] assms(1,2) have g': "g' = stl (stl g)" by simp
  show ?case
  proof (cases "to_sects ! i \<noteq> fm_sect")
    case True
    with d i show ?thesis by (subst redraw.simps) simp
  next
    case False
    from Suc.prems have "to_sects ! fst (draw distr (sdrop (2 * k) (stl (stl g)))) \<noteq> fm_sect"
      by simp
    from Suc.IH [OF this] False d i g' show ?thesis by (subst redraw.simps) simp
  qed
qed

lemma redraw_never_returns:
  assumes "distr \<noteq> []" and "length distr = length to_sects"
    and "to_sects ! fst (draw distr (sconst x)) = fm_sect"
  shows "redraw to_sects distr fm_sect (sconst x) = None"
proof (rule ccontr)
  assume "redraw to_sects distr fm_sect (sconst x) \<noteq> None"
  then obtain res where r: "redraw to_sects distr fm_sect (sconst x) = Some res"
    by blast
  obtain i where d: "draw distr (sconst x) = (i, sconst x)"
    using draw_engine [of distr "sconst x"] by (cases "draw distr (sconst x)") (simp split: if_splits)
  with draw_index_bound [OF assms(1), of "sconst x"] assms(2,3)
  have i: "i < length to_sects" "to_sects ! i = fm_sect" by simp_all
  have "\<not> (to_sects = to_sects \<and> distr = distr \<and> fm_sect = fm_sect \<and> sconst x = sconst x)"
  proof (rule redraw.raw_induct
      [where P = "\<lambda>ts d fm g res. \<not> (ts = to_sects \<and> d = distr \<and> fm = fm_sect \<and> g = sconst x)",
        OF _ r])
    fix redraw' :: "atom list \<Rightarrow> real list \<Rightarrow> atom \<Rightarrow> rangen \<Rightarrow> (error + atom \<times> rangen) option"
    fix ts ds fm g res
    assume IH: "\<And>ts ds fm g res. redraw' ts ds fm g = Some res \<Longrightarrow>
            \<not> (ts = to_sects \<and> ds = distr \<and> fm = fm_sect \<and> g = sconst x)"
    assume body: "(case draw ds g of
        (i, g') \<Rightarrow>
          if i < length ts then
            (if ts ! i \<noteq> fm then Some (Inr (ts ! i, g')) else redraw' ts ds fm g')
          else Some (Inl UndefinedBehaviour)) = Some res"
    show "\<not> (ts = to_sects \<and> ds = distr \<and> fm = fm_sect \<and> g = sconst x)"
    proof
      assume eq: "ts = to_sects \<and> ds = distr \<and> fm = fm_sect \<and> g = sconst x"
      with body d i have "redraw' to_sects distr fm_sect (sconst x) = Some res"
        by simp
      from IH [OF this] show False by simp
    qed
  qed
  then show False by simp
qed

end
